theory Spec2Isabelle
  imports Main "HOL-Library.AList"
begin

section \<open>Offline cache manager (class OfflineCacheManager)\<close>

text \<open>
  A shallow embedding of the class \<^verbatim>\<open>OfflineCacheManager\<close>. The instance fields
  (\<^verbatim>\<open>config\<close>, \<^verbatim>\<open>cacheIndex\<close>, \<^verbatim>\<open>cacheStats\<close>) and the contents of the cache
  directory form one state record that every method takes and returns. The clock
  (\<^verbatim>\<open>Date.now()\<close>) is an argument of each public call. The platform functions the class
  calls (\<^verbatim>\<open>crypto\<close>, \<^verbatim>\<open>zlib\<close>, \<^verbatim>\<open>JSON\<close>) are parameters, collected in the record
  \<open>platform\<close>; which file-system calls throw is a second parameter, \<open>io_env\<close>.
\<close>

subsection \<open>Values, configuration, metadata, statistics\<close>

text \<open>
  Keys and cached values are JSON-serialisable JavaScript values. Strings are byte
  strings (their UTF-8 encoding), so \<^verbatim>\<open>Buffer.byteLength(s, 'utf8')\<close> is \<open>length s\<close>.
\<close>

datatype jsval =
    JNull
  | JBool bool
  | JNum int
  | JStr string
  | JArr "jsval list"
  | JObj "(string \<times> jsval) list"

fun js_typeof :: "jsval \<Rightarrow> string" where
  "js_typeof JNull = ''object''"
| "js_typeof (JBool b) = ''boolean''"
| "js_typeof (JNum n) = ''number''"
| "js_typeof (JStr s) = ''string''"
| "js_typeof (JArr xs) = ''object''"
| "js_typeof (JObj kvs) = ''object''"

record cache_config =
  cacheDir :: string
  maxCacheSize :: nat
  maxCacheAge :: int
  compressionEnabled :: bool
  encryptionEnabled :: bool
  encryptionKey :: string

record cache_metadata =
  key :: jsval
  cacheKey :: string
  timestamp :: int
  ttl :: int
  expiresAt :: int
  size_m :: nat
  isCompressed :: bool
  isEncrypted :: bool
  dataType :: string
  version :: string

record cache_stats =
  totalSize :: nat
  totalFiles :: nat
  hits :: nat
  misses :: nat
  lastCleanup :: "int option"

text \<open>
  The platform: \<open>md5_hex s\<close> is \<^verbatim>\<open>crypto.createHash('md5').update(s).digest('hex')\<close>;
  \<open>gzip_b64 s\<close> is \<^verbatim>\<open>zlib.gzipSync(s).toString('base64')\<close> and \<open>gunzip_b64\<close> is
  \<^verbatim>\<open>zlib.gunzipSync(Buffer.from(s, 'base64')).toString()\<close>; \<open>aes_encrypt k s\<close> and
  \<open>aes_decrypt k s\<close> are the \<^verbatim>\<open>aes192\<close> cipher and decipher with hex output and input.
  \<open>None\<close> stands for a thrown exception.
\<close>

record platform =
  md5_hex :: "string \<Rightarrow> string"
  json_stringify :: "jsval \<Rightarrow> string"
  json_parse :: "string \<Rightarrow> jsval option"
  gzip_b64 :: "string \<Rightarrow> string option"
  gunzip_b64 :: "string \<Rightarrow> string option"
  aes_encrypt :: "string \<Rightarrow> string \<Rightarrow> string option"
  aes_decrypt :: "string \<Rightarrow> string \<Rightarrow> string option"

subsection \<open>Cache keys\<close>

definition generateCacheKey :: "platform \<Rightarrow> jsval \<Rightarrow> string" where
  "generateCacheKey lib d =
     (case d of
        JStr s \<Rightarrow> md5_hex lib s
      | _ \<Rightarrow> md5_hex lib (json_stringify lib d))"

subsection \<open>Codec stages\<close>

definition compressData :: "platform \<Rightarrow> cache_config \<Rightarrow> string \<Rightarrow> string" where
  "compressData lib cfg d =
     (if \<not> compressionEnabled cfg then d
      else (case gzip_b64 lib d of Some c \<Rightarrow> c | None \<Rightarrow> d))"

definition decompressData :: "platform \<Rightarrow> cache_config \<Rightarrow> string \<Rightarrow> bool \<Rightarrow> string" where
  "decompressData lib cfg compressedData isC =
     (if \<not> isC \<or> \<not> compressionEnabled cfg then compressedData
      else (case gunzip_b64 lib compressedData of Some x \<Rightarrow> x | None \<Rightarrow> compressedData))"

definition encryptData :: "platform \<Rightarrow> cache_config \<Rightarrow> string \<Rightarrow> string" where
  "encryptData lib cfg d =
     (if \<not> encryptionEnabled cfg then d
      else (case aes_encrypt lib (encryptionKey cfg) d of Some e \<Rightarrow> e | None \<Rightarrow> d))"

definition decryptData :: "platform \<Rightarrow> cache_config \<Rightarrow> string \<Rightarrow> bool \<Rightarrow> string" where
  "decryptData lib cfg encryptedData isE =
     (if \<not> isE \<or> \<not> encryptionEnabled cfg then encryptedData
      else (case aes_decrypt lib (encryptionKey cfg) encryptedData of
              Some x \<Rightarrow> x | None \<Rightarrow> encryptedData))"

text \<open>
  The write path of \<^verbatim>\<open>set\<close> (compress, then encrypt, each flag computed by comparing the
  stage's output with its input) and the read path of \<^verbatim>\<open>get\<close> (decrypt, then
  decompress, each governed by the recorded flag).
\<close>

definition encode :: "platform \<Rightarrow> cache_config \<Rightarrow> string \<Rightarrow> string \<times> bool \<times> bool" where
  "encode lib cfg processedData =
     (let compressed = compressData lib cfg processedData;
          isC = (compressed \<noteq> processedData);
          encrypted = encryptData lib cfg compressed;
          isE = (encrypted \<noteq> compressed)
      in (encrypted, isC, isE))"

definition decode :: "platform \<Rightarrow> cache_config \<Rightarrow> string \<Rightarrow> bool \<Rightarrow> bool \<Rightarrow> string" where
  "decode lib cfg dat isC isE =
     (let decrypted = decryptData lib cfg dat isE;
          decompressed = decompressData lib cfg decrypted isC
      in decompressed)"

text \<open>The inverse laws of the platform's transforms, wherever the forward direction returns.\<close>

definition codec_lossless :: "platform \<Rightarrow> bool" where
  "codec_lossless lib \<longleftrightarrow>
     (\<forall>x y. gzip_b64 lib x = Some y \<longrightarrow> gunzip_b64 lib y = Some x) \<and>
     (\<forall>k x y. aes_encrypt lib k x = Some y \<longrightarrow> aes_decrypt lib k y = Some x)"

subsection \<open>The cache directory and the manager's state\<close>

text \<open>
  A cache file \<^verbatim>\<open><cacheKey>.cache\<close> holds the JSON text of \<^verbatim>\<open>{metadata, data}\<close>;
  \<open>Corrupt\<close> is a file whose text \<^verbatim>\<open>JSON.parse\<close> rejects. The directory is a map from
  cache keys to files, and \<open>indexFile\<close> is \<^verbatim>\<open>cache-index.json\<close> (absent, or a snapshot
  that parses).
\<close>

datatype cache_file = CacheFile cache_metadata string | Corrupt

record snapshot =
  snap_version :: string
  snap_timestamp :: int
  snap_index :: "(string \<times> cache_metadata) list"
  snap_stats :: cache_stats

text \<open>
  \<open>cacheIndex\<close> is a JavaScript \<^verbatim>\<open>Map\<close>: an association list in insertion order, where
  \<^verbatim>\<open>Map.set\<close> on a present key replaces the value in place (\<open>AList.update\<close>) and
  \<^verbatim>\<open>Map.delete\<close> removes the key (\<open>AList.delete\<close>).
\<close>

record manager =
  config :: cache_config
  cacheIndex :: "(string \<times> cache_metadata) list"
  cacheStats :: cache_stats
  files :: "string \<rightharpoonup> cache_file"
  indexFile :: "snapshot option"

text \<open>Which file-system calls succeed, by cache key; a call that does not succeed throws.\<close>

record io_env =
  write_ok :: "string \<Rightarrow> bool"
  unlink_ok :: "string \<Rightarrow> bool"
  read_ok :: "string \<Rightarrow> bool"
  index_write_ok :: bool

definition io_ok :: io_env where
  "io_ok = \<lparr> write_ok = (\<lambda>_. True), unlink_ok = (\<lambda>_. True), read_ok = (\<lambda>_. True),
             index_write_ok = True \<rparr>"

subsection \<open>Construction, statistics, persistence\<close>

definition updateCacheStats :: "manager \<Rightarrow> manager" where
  "updateCacheStats st =
     st\<lparr>cacheStats := (cacheStats st)
          \<lparr>totalSize := sum_list (map (\<lambda>e. size_m (snd e)) (cacheIndex st)),
           totalFiles := length (cacheIndex st)\<rparr>\<rparr>"

definition saveCacheIndex :: "io_env \<Rightarrow> int \<Rightarrow> manager \<Rightarrow> manager" where
  "saveCacheIndex io now st =
     (if index_write_ok io
      then st\<lparr>indexFile := Some \<lparr> snap_version = ''1.0'', snap_timestamp = now,
                                    snap_index = cacheIndex st, snap_stats = cacheStats st \<rparr>\<rparr>
      else st)"

definition loadCacheIndex :: "manager \<Rightarrow> manager" where
  "loadCacheIndex st =
     (case indexFile st of
        None \<Rightarrow> st
      | Some sn \<Rightarrow> st\<lparr>cacheIndex := snap_index sn, cacheStats := snap_stats sn\<rparr>)"

text \<open>The constructor, run on a cache directory with the given contents.\<close>

definition initializeCache ::
  "cache_config \<Rightarrow> (string \<rightharpoonup> cache_file) \<Rightarrow> snapshot option \<Rightarrow> manager" where
  "initializeCache cfg fs idx =
     updateCacheStats (loadCacheIndex
       \<lparr> config = cfg, cacheIndex = [],
         cacheStats = \<lparr> totalSize = 0, totalFiles = 0, hits = 0, misses = 0,
                        lastCleanup = None \<rparr>,
         files = fs, indexFile = idx \<rparr>)"

definition empty_cache :: "cache_config \<Rightarrow> manager" where
  "empty_cache cfg = initializeCache cfg Map.empty None"

subsection \<open>set, get, delete, has\<close>

text \<open>
  \<^verbatim>\<open>set(key, data, options)\<close>; \<open>opt_ttl\<close> is \<^verbatim>\<open>options.ttl\<close>, and \<^verbatim>\<open>options.ttl || maxCacheAge\<close>
  takes the default also for a ttl of 0. The only call of the body that throws on these
  values is \<^verbatim>\<open>fs.writeFileSync\<close>; the handler returns \<^verbatim>\<open>false\<close>.
\<close>

definition set_c ::
  "platform \<Rightarrow> io_env \<Rightarrow> int \<Rightarrow> jsval \<Rightarrow> jsval \<Rightarrow> int option \<Rightarrow> manager \<Rightarrow> bool \<times> manager" where
  "set_c lib io now k d opt_ttl st =
     (let ck = generateCacheKey lib k;
          tstamp = now;
          t = (case opt_ttl of
                 None \<Rightarrow> maxCacheAge (config st)
               | Some n \<Rightarrow> if n = 0 then maxCacheAge (config st) else n);
          processedData = (case d of JStr s \<Rightarrow> s | _ \<Rightarrow> json_stringify lib d);
          (encrypted, isC, isE) = encode lib (config st) processedData;
          metadata = \<lparr> key = k, cacheKey = ck, timestamp = tstamp, ttl = t,
                       expiresAt = tstamp + t, size_m = length encrypted,
                       isCompressed = isC, isEncrypted = isE,
                       dataType = js_typeof d, version = ''1.0'' \<rparr>
      in if \<not> write_ok io ck then (False, st)
         else
           let st1 = st\<lparr>files := (files st)(ck \<mapsto> CacheFile metadata encrypted)\<rparr>;
               st2 = st1\<lparr>cacheIndex := AList.update ck metadata (cacheIndex st1)\<rparr>;
               st3 = st2\<lparr>cacheStats := (cacheStats st2)\<lparr>totalFiles := length (cacheIndex st2)\<rparr>\<rparr>;
               st4 = updateCacheStats st3;
               st5 = saveCacheIndex io now st4
           in (True, st5))"

definition delete ::
  "platform \<Rightarrow> io_env \<Rightarrow> int \<Rightarrow> jsval \<Rightarrow> manager \<Rightarrow> bool \<times> manager" where
  "delete lib io now k st =
     (let ck = generateCacheKey lib k in
      case map_of (cacheIndex st) ck of
        None \<Rightarrow> (False, st)
      | Some metadata \<Rightarrow>
          if files st ck \<noteq> None \<and> \<not> unlink_ok io ck then (False, st)
          else
            let st1 = st\<lparr>files := (files st)(ck := None)\<rparr>;
                st2 = st1\<lparr>cacheIndex := AList.delete ck (cacheIndex st1)\<rparr>;
                st3 = updateCacheStats st2;
                st4 = saveCacheIndex io now st3
            in (True, st4))"

definition count_miss :: "manager \<Rightarrow> manager" where
  "count_miss st = st\<lparr>cacheStats := (cacheStats st)\<lparr>misses := misses (cacheStats st) + 1\<rparr>\<rparr>"

definition count_hit :: "manager \<Rightarrow> manager" where
  "count_hit st = st\<lparr>cacheStats := (cacheStats st)\<lparr>hits := hits (cacheStats st) + 1\<rparr>\<rparr>"

text \<open>
  \<^verbatim>\<open>get(key)\<close>; \<^verbatim>\<open>null\<close> is \<open>JNull\<close>. The calls that throw into the handler (which counts
  a miss and returns \<^verbatim>\<open>null\<close>) are \<^verbatim>\<open>fs.readFileSync\<close>, \<^verbatim>\<open>JSON.parse\<close> of the file and
  \<^verbatim>\<open>JSON.parse\<close> of the decoded text.
\<close>

definition get ::
  "platform \<Rightarrow> io_env \<Rightarrow> int \<Rightarrow> jsval \<Rightarrow> manager \<Rightarrow> jsval \<times> manager" where
  "get lib io now k st =
     (let ck = generateCacheKey lib k in
      case map_of (cacheIndex st) ck of
        None \<Rightarrow> (JNull, count_miss st)
      | Some metadata \<Rightarrow>
          if now > expiresAt metadata
          then (JNull, count_miss (snd (delete lib io now k st)))
          else
            (case files st ck of
               None \<Rightarrow>
                 (JNull, count_miss (st\<lparr>cacheIndex := AList.delete ck (cacheIndex st)\<rparr>))
             | Some f \<Rightarrow>
                 if \<not> read_ok io ck then (JNull, count_miss st)
                 else
                   (case f of
                      Corrupt \<Rightarrow> (JNull, count_miss st)
                    | CacheFile fm dat \<Rightarrow>
                        let decompressed =
                              decode lib (config st) dat
                                (isCompressed metadata) (isEncrypted metadata)
                        in if dataType metadata = ''string''
                           then (JStr decompressed, count_hit st)
                           else (case json_parse lib decompressed of
                                   None \<Rightarrow> (JNull, count_miss st)
                                 | Some v \<Rightarrow> (v, count_hit st)))))"

definition has ::
  "platform \<Rightarrow> io_env \<Rightarrow> int \<Rightarrow> jsval \<Rightarrow> manager \<Rightarrow> bool \<times> manager" where
  "has lib io now k st =
     (let ck = generateCacheKey lib k in
      case map_of (cacheIndex st) ck of
        None \<Rightarrow> (False, st)
      | Some metadata \<Rightarrow>
          if now > expiresAt metadata then (False, snd (delete lib io now k st))
          else (True, st))"

subsection \<open>Sweeps\<close>

text \<open>
  The body both sweeps run for an entry they remove: unlink the file if it exists, adding
  the entry's size to \<^verbatim>\<open>cleanedSize\<close>, then drop the index entry and count it; an unlink
  that throws leaves the entry and the counters as they were.
\<close>

definition sweep_entry ::
  "io_env \<Rightarrow> string \<Rightarrow> cache_metadata \<Rightarrow> manager \<times> nat \<times> nat \<Rightarrow> manager \<times> nat \<times> nat" where
  "sweep_entry io ck metadata acc =
     (case acc of (st, cleanedCount, cleanedSize) \<Rightarrow>
        (case files st ck of
           Some f \<Rightarrow>
             if unlink_ok io ck
             then (st\<lparr>files := (files st)(ck := None),
                      cacheIndex := AList.delete ck (cacheIndex st)\<rparr>,
                   cleanedCount + 1, cleanedSize + size_m metadata)
             else (st, cleanedCount, cleanedSize)
         | None \<Rightarrow>
             (st\<lparr>cacheIndex := AList.delete ck (cacheIndex st)\<rparr>,
              cleanedCount + 1, cleanedSize)))"

fun expired_loop ::
  "io_env \<Rightarrow> int \<Rightarrow> (string \<times> cache_metadata) list \<Rightarrow> manager \<times> nat \<times> nat
     \<Rightarrow> manager \<times> nat \<times> nat" where
  "expired_loop io now [] acc = acc"
| "expired_loop io now ((ck, metadata) # rest) acc =
     (if now > expiresAt metadata
      then expired_loop io now rest (sweep_entry io ck metadata acc)
      else expired_loop io now rest acc)"

definition cleanupExpired :: "io_env \<Rightarrow> int \<Rightarrow> manager \<Rightarrow> (nat \<times> nat) \<times> manager" where
  "cleanupExpired io now st =
     (case expired_loop io now (cacheIndex st) (st, 0, 0) of
        (st1, cleanedCount, cleanedSize) \<Rightarrow>
          if cleanedCount > 0
          then
            let st2 = updateCacheStats st1;
                st3 = saveCacheIndex io now st2;
                st4 = st3\<lparr>cacheStats := (cacheStats st3)\<lparr>lastCleanup := Some now\<rparr>\<rparr>
            in ((cleanedCount, cleanedSize), st4)
          else ((cleanedCount, cleanedSize), st1))"

fun oversized_loop ::
  "io_env \<Rightarrow> (string \<times> cache_metadata) list \<Rightarrow> manager \<times> nat \<times> nat
     \<Rightarrow> manager \<times> nat \<times> nat" where
  "oversized_loop io [] acc = acc"
| "oversized_loop io ((ck, metadata) # rest) (st, cleanedCount, cleanedSize) =
     (if int (totalSize (cacheStats st)) - int cleanedSize \<le> int (maxCacheSize (config st))
      then (st, cleanedCount, cleanedSize)
      else oversized_loop io rest (sweep_entry io ck metadata (st, cleanedCount, cleanedSize)))"

definition cleanupOversized :: "io_env \<Rightarrow> int \<Rightarrow> manager \<Rightarrow> (nat \<times> nat) \<times> manager" where
  "cleanupOversized io now st =
     (if totalSize (cacheStats st) \<le> maxCacheSize (config st) then ((0, 0), st)
      else
        let sortedEntries = sort_key (\<lambda>e. timestamp (snd e)) (cacheIndex st) in
        case oversized_loop io sortedEntries (st, 0, 0) of
          (st1, cleanedCount, cleanedSize) \<Rightarrow>
            if cleanedCount > 0
            then ((cleanedCount, cleanedSize), saveCacheIndex io now (updateCacheStats st1))
            else ((cleanedCount, cleanedSize), st1))"

definition cleanup :: "io_env \<Rightarrow> int \<Rightarrow> manager \<Rightarrow> (nat \<times> nat \<times> nat) \<times> manager" where
  "cleanup io now st =
     (case cleanupExpired io now st of
        (expiredResult, st1) \<Rightarrow>
          (case cleanupOversized io now st1 of
             (oversizedResult, st2) \<Rightarrow>
               ((fst expiredResult + fst oversizedResult,
                 snd expiredResult + snd oversizedResult,
                 totalFiles (cacheStats st2)), st2)))"

text \<open>
  \<^verbatim>\<open>getStats()\<close> reads the statistics and changes nothing; the formatted fields
  (\<^verbatim>\<open>hitRate\<close>, \<^verbatim>\<open>maxSize\<close>, \<^verbatim>\<open>usage\<close>) are left out.
\<close>

definition getStats :: "manager \<Rightarrow> cache_stats \<times> manager" where
  "getStats st = (cacheStats st, st)"

fun clear_loop ::
  "io_env \<Rightarrow> (string \<times> cache_metadata) list \<Rightarrow> (string \<rightharpoonup> cache_file) \<times> nat
     \<Rightarrow> (string \<rightharpoonup> cache_file) \<times> nat" where
  "clear_loop io [] acc = acc"
| "clear_loop io ((ck, metadata) # rest) (fs, deletedCount) =
     (if fs ck \<noteq> None \<and> unlink_ok io ck
      then clear_loop io rest (fs(ck := None), deletedCount + 1)
      else clear_loop io rest (fs, deletedCount))"

definition clear :: "io_env \<Rightarrow> int \<Rightarrow> manager \<Rightarrow> nat \<times> manager" where
  "clear io now st =
     (case clear_loop io (cacheIndex st) (files st, 0) of
        (fs, deletedCount) \<Rightarrow>
          let st1 = st\<lparr>files := fs, cacheIndex := [],
                      cacheStats := \<lparr> totalSize = 0, totalFiles = 0, hits = 0, misses = 0,
                                      lastCleanup = Some now \<rparr>\<rparr>;
              st2 = saveCacheIndex io now st1
          in (deletedCount, st2))"

subsection \<open>Sequences of public calls\<close>

datatype op =
    Set jsval jsval "int option"
  | Get jsval
  | Has jsval
  | Delete jsval
  | CleanupExpired
  | CleanupOversized
  | Cleanup
  | Clear
  | GetStats

fun exec :: "platform \<Rightarrow> io_env \<Rightarrow> int \<times> op \<Rightarrow> manager \<Rightarrow> manager" where
  "exec lib io (now, Set k d t) st = snd (set_c lib io now k d t st)"
| "exec lib io (now, Get k) st = snd (get lib io now k st)"
| "exec lib io (now, Has k) st = snd (has lib io now k st)"
| "exec lib io (now, Delete k) st = snd (delete lib io now k st)"
| "exec lib io (now, CleanupExpired) st = snd (cleanupExpired io now st)"
| "exec lib io (now, CleanupOversized) st = snd (cleanupOversized io now st)"
| "exec lib io (now, Cleanup) st = snd (cleanup io now st)"
| "exec lib io (now, Clear) st = snd (clear io now st)"
| "exec lib io (now, GetStats) st = snd (getStats st)"

definition run :: "platform \<Rightarrow> io_env \<Rightarrow> (int \<times> op) list \<Rightarrow> manager \<Rightarrow> manager" where
  "run lib io calls st = fold (exec lib io) calls st"

subsection \<open>The hit condition of get\<close>

text \<open>
  When \<^verbatim>\<open>get\<close> is to count a hit: the entry is found and has not expired, its cache file
  exists and is read and parsed, and the decoded text is the value (a string entry) or
  parses as JSON. \<open>outcomes\<close> lists this condition along a sequence of \<^verbatim>\<open>get\<close> calls, each
  evaluated in the state its call starts from.
\<close>

definition served :: "platform \<Rightarrow> io_env \<Rightarrow> int \<Rightarrow> jsval \<Rightarrow> manager \<Rightarrow> bool" where
  "served lib io now k st =
     (case map_of (cacheIndex st) (generateCacheKey lib k) of
        None \<Rightarrow> False
      | Some metadata \<Rightarrow>
          \<not> now > expiresAt metadata \<and>
          (case files st (generateCacheKey lib k) of
             None \<Rightarrow> False
           | Some f \<Rightarrow>
               read_ok io (generateCacheKey lib k) \<and>
               (case f of
                  Corrupt \<Rightarrow> False
                | CacheFile fm dat \<Rightarrow>
                    dataType metadata = ''string'' \<or>
                    json_parse lib (decode lib (config st) dat
                      (isCompressed metadata) (isEncrypted metadata)) \<noteq> None)))"



subsection \<open>Index and directory in step\<close>

text \<open>
  The index and the cache directory agree: no content key occurs twice in the index, and
  the content keys of the index are exactly the keys that have a cache file.
\<close>

definition consistent :: "manager \<Rightarrow> bool" where
  "consistent st \<longleftrightarrow>
     distinct (map fst (cacheIndex st)) \<and> fst ` set (cacheIndex st) = dom (files st)"

text \<open>The cached aggregate \<open>totalSize\<close> is the sum of the sizes recorded in the index.\<close>

definition stats_in_step :: "manager \<Rightarrow> bool" where
  "stats_in_step st \<longleftrightarrow>
     totalSize (cacheStats st) = sum_list (map (\<lambda>e. size_m (snd e)) (cacheIndex st))"

subsection \<open>A reference platform for concrete evaluation\<close>

text \<open>
  A small platform on which the definitions can be run. Its \<open>md5_hex\<close> is an injective
  stand-in for the hash. Its \<open>gzip_b64\<close> output starts with
  \<^verbatim>\<open>H4sI\<close>, as the base64 text of every gzip stream does, and its \<open>gunzip_b64\<close> throws on
  any text that does not. Its \<open>json_stringify\<close> is right on \<^verbatim>\<open>null\<close>, booleans and the
  numbers and strings used below.
\<close>

fun ref_stringify :: "jsval \<Rightarrow> string" where
  "ref_stringify JNull = ''null''"
| "ref_stringify (JBool b) = (if b then ''true'' else ''false'')"
| "ref_stringify (JNum n) = (if n = 42 then ''42'' else if n = 7 then ''7'' else ''0'')"
| "ref_stringify (JStr s) = CHR 0x22 # s @ [CHR 0x22]"
| "ref_stringify (JArr xs) = ''[]''"
| "ref_stringify (JObj kvs) = ''{}''"

definition ref_parse :: "string \<Rightarrow> jsval option" where
  "ref_parse s =
     (if s = ''null'' then Some JNull
      else if s = ''true'' then Some (JBool True)
      else if s = ''false'' then Some (JBool False)
      else if s = ''42'' then Some (JNum 42)
      else if s = ''7'' then Some (JNum 7)
      else if s = ''0'' then Some (JNum 0)
      else if s = ''[]'' then Some (JArr [])
      else if s = ''{}'' then Some (JObj [])
      else None)"

definition ref_gunzip :: "string \<Rightarrow> string option" where
  "ref_gunzip s = (if take 4 s = ''H4sI'' then Some (drop 4 s) else None)"

definition ref_decrypt :: "string \<Rightarrow> string \<Rightarrow> string option" where
  "ref_decrypt k s =
     (if take (length k + 1) s = k @ '':'' then Some (drop (length k + 1) s) else None)"

definition ref_lib :: platform where
  "ref_lib = \<lparr> md5_hex = (\<lambda>s. ''md5-'' @ s),
               json_stringify = ref_stringify,
               json_parse = ref_parse,
               gzip_b64 = (\<lambda>s. Some (''H4sI'' @ s)),
               gunzip_b64 = ref_gunzip,
               aes_encrypt = (\<lambda>k s. Some (k @ '':'' @ s)),
               aes_decrypt = ref_decrypt \<rparr>"

definition ref_config :: cache_config where
  "ref_config = \<lparr> cacheDir = ''./cache'',
                  maxCacheSize = 50 * 1024 * 1024,
                  maxCacheAge = 7 * 24 * 60 * 60 * 1000,
                  compressionEnabled = True,
                  encryptionEnabled = False,
                  encryptionKey = ''default-key-change-me'' \<rparr>"

text \<open>
  Cache directories found at start-up. In each, the index file lists one string entry
  under the key \<^verbatim>\<open>"k"\<close>. In \<open>garbled_cache\<close> the entry is recorded as compressed and its
  file holds text that is not a gzip stream; in \<open>sealed_cache\<close> it is recorded as encrypted,
  encryption is enabled, and its file holds text the decipher rejects; in \<open>orphan_cache\<close>
  its file is missing.
\<close>

definition entry_k :: cache_metadata where
  "entry_k = \<lparr> key = JStr ''k'', cacheKey = ''md5-k'', timestamp = 0, ttl = 1000,
               expiresAt = 1000, size_m = 5, isCompressed = True, isEncrypted = False,
               dataType = ''string'', version = ''1.0'' \<rparr>"

definition snapshot_of :: "cache_metadata \<Rightarrow> snapshot" where
  "snapshot_of m =
     \<lparr> snap_version = ''1.0'', snap_timestamp = 0, snap_index = [(''md5-k'', m)],
       snap_stats = \<lparr> totalSize = size_m m, totalFiles = 1, hits = 0, misses = 0,
                      lastCleanup = None \<rparr> \<rparr>"




definition orphan_cache :: manager where
  "orphan_cache = initializeCache ref_config Map.empty (Some (snapshot_of entry_k))"




text \<open>
  Five string entries of 30 bytes each, written at times 1 to 5 and held in the index in
  another order, under a budget of 100 bytes.
\<close>

definition entry_at :: "string \<Rightarrow> int \<Rightarrow> nat \<Rightarrow> string \<times> cache_metadata" where
  "entry_at name ts sz =
     (name, \<lparr> key = JStr name, cacheKey = name, timestamp = ts, ttl = 1000,
              expiresAt = ts + 1000, size_m = sz, isCompressed = False, isEncrypted = False,
              dataType = ''string'', version = ''1.0'' \<rparr>)"

definition five_index :: "(string \<times> cache_metadata) list" where
  "five_index = [entry_at ''c'' 3 30, entry_at ''a'' 1 30, entry_at ''e'' 5 30,
                 entry_at ''b'' 2 30, entry_at ''d'' 4 30]"

definition five_entries :: manager where
  "five_entries =
     \<lparr> config = ref_config\<lparr>maxCacheSize := 100, compressionEnabled := False\<rparr>,
       cacheIndex = five_index,
       cacheStats = \<lparr> totalSize = 150, totalFiles = 5, hits = 0, misses = 0,
                      lastCleanup = None \<rparr>,
       files = map_of (map (\<lambda>e. (fst e, CacheFile (snd e) (replicate 30 CHR ''x'')))
                         five_index),
       indexFile = None \<rparr>"

section \<open>Properties\<close>

subsection \<open>Codec round trip\<close>

lemma ref_lib_lossless: "codec_lossless ref_lib"
  by (simp add: codec_lossless_def ref_lib_def ref_gunzip_def ref_decrypt_def)

lemma decompress_compress:
  assumes "codec_lossless lib"
  shows "decompressData lib cfg (compressData lib cfg x) (compressData lib cfg x \<noteq> x) = x"
proof (cases "compressionEnabled cfg")
  case False
  then show ?thesis by (simp add: compressData_def decompressData_def)
next
  case True
  show ?thesis
  proof (cases "gzip_b64 lib x")
    case None
    with True show ?thesis by (simp add: compressData_def decompressData_def)
  next
    case (Some c)
    with assms have "gunzip_b64 lib c = Some x" by (simp add: codec_lossless_def)
    with True Some show ?thesis by (simp add: compressData_def decompressData_def)
  qed
qed

lemma decrypt_encrypt:
  assumes "codec_lossless lib"
  shows "decryptData lib cfg (encryptData lib cfg x) (encryptData lib cfg x \<noteq> x) = x"
proof (cases "encryptionEnabled cfg")
  case False
  then show ?thesis by (simp add: encryptData_def decryptData_def)
next
  case True
  show ?thesis
  proof (cases "aes_encrypt lib (encryptionKey cfg) x")
    case None
    with True show ?thesis by (simp add: encryptData_def decryptData_def)
  next
    case (Some c)
    with assms have "aes_decrypt lib (encryptionKey cfg) c = Some x"
      by (simp add: codec_lossless_def)
    with True Some show ?thesis by (simp add: encryptData_def decryptData_def)
  qed
qed

lemma decode_encode:
  assumes "codec_lossless lib" and "encode lib cfg x = (y, isC, isE)"
  shows "decode lib cfg y isC isE = x"
proof -
  from assms(2) have y: "y = encryptData lib cfg (compressData lib cfg x)"
    and c: "isC = (compressData lib cfg x \<noteq> x)"
    and e: "isE = (encryptData lib cfg (compressData lib cfg x) \<noteq> compressData lib cfg x)"
    by (auto simp: encode_def Let_def)
  show ?thesis
    unfolding decode_def Let_def y c e
    by (simp only: decrypt_encrypt [OF assms(1)] decompress_compress [OF assms(1)])
qed

text \<open>
  Claim C1. Under one fixed configuration, whatever its \<open>compressionEnabled\<close> and
  \<open>encryptionEnabled\<close> flags, decoding the bytes produced by the write path with the flags
  the write path recorded gives the payload back, for every payload, provided the
  platform's gunzip and decipher invert its gzip and cipher.
\<close>

theorem codec_round_trip:
  assumes "codec_lossless lib"
    and "encode lib (cfg\<lparr>compressionEnabled := c, encryptionEnabled := e\<rparr>) x = (y, isC, isE)"
  shows "decode lib (cfg\<lparr>compressionEnabled := c, encryptionEnabled := e\<rparr>) y isC isE = x"
  using assms by (rule decode_encode)

theorem codec_round_trip_witness:
  "codec_lossless ref_lib
   \<and> encode ref_lib (ref_config\<lparr>compressionEnabled := True, encryptionEnabled := True\<rparr>)
        ''payload'' = (''default-key-change-me:H4sIpayload'', True, True)
   \<and> decode ref_lib (ref_config\<lparr>compressionEnabled := True, encryptionEnabled := True\<rparr>)
        ''default-key-change-me:H4sIpayload'' True True = ''payload''"
proof -
  let ?cfg = "ref_config\<lparr>compressionEnabled := True, encryptionEnabled := True\<rparr>"
  have enc: "encode ref_lib ?cfg ''payload'' = (''default-key-change-me:H4sIpayload'', True, True)"
    by (simp add: encode_def compressData_def encryptData_def ref_lib_def ref_config_def)
  have "decode ref_lib ?cfg ''default-key-change-me:H4sIpayload'' True True = ''payload''"
    by (rule codec_round_trip [OF ref_lib_lossless enc])
  with enc ref_lib_lossless show ?thesis by simp
qed

subsection \<open>State projections\<close>


lemma updateCacheStats_simps:
  "config (updateCacheStats st) = config st"
  "cacheIndex (updateCacheStats st) = cacheIndex st"
  "files (updateCacheStats st) = files st"
  "indexFile (updateCacheStats st) = indexFile st"
  "hits (cacheStats (updateCacheStats st)) = hits (cacheStats st)"
  "misses (cacheStats (updateCacheStats st)) = misses (cacheStats st)"
  "lastCleanup (cacheStats (updateCacheStats st)) = lastCleanup (cacheStats st)"
  "totalSize (cacheStats (updateCacheStats st)) = sum_list (map (\<lambda>e. size_m (snd e)) (cacheIndex st))"
  "totalFiles (cacheStats (updateCacheStats st)) = length (cacheIndex st)"
  by (simp_all add: updateCacheStats_def)

lemma saveCacheIndex_simps:
  "config (saveCacheIndex io now st) = config st"
  "cacheIndex (saveCacheIndex io now st) = cacheIndex st"
  "cacheStats (saveCacheIndex io now st) = cacheStats st"
  "files (saveCacheIndex io now st) = files st"
  by (simp_all add: saveCacheIndex_def)

subsection \<open>A failed write\<close>

lemma set_c_write_fails:
  "\<not> write_ok io (generateCacheKey lib k) \<Longrightarrow> set_c lib io now k d t st = (False, st)"
  by (simp add: set_c_def Let_def split: prod.splits)

text \<open>
  Claim C9. If the write of the cache file fails, \<^verbatim>\<open>set\<close> returns \<^verbatim>\<open>false\<close> and the index,
  the statistics (\<open>totalSize\<close>, \<open>totalFiles\<close> among them) and the persisted snapshot are
  exactly what they were: no entry is added or changed for the attempted key.
\<close>

theorem set_failed_write_keeps_index:
  assumes "\<not> write_ok io (generateCacheKey lib k)"
  shows "fst (set_c lib io now k d t st) = False
    \<and> cacheIndex (snd (set_c lib io now k d t st)) = cacheIndex st
    \<and> cacheStats (snd (set_c lib io now k d t st)) = cacheStats st
    \<and> indexFile (snd (set_c lib io now k d t st)) = indexFile st"
  using assms by (simp add: set_c_write_fails)

theorem set_failed_write_keeps_index_witness:
  "\<not> write_ok (io_ok\<lparr>write_ok := (\<lambda>_. False)\<rparr>) (generateCacheKey ref_lib (JStr ''k''))
   \<and> fst (set_c ref_lib (io_ok\<lparr>write_ok := (\<lambda>_. False)\<rparr>) 0 (JStr ''k'') (JStr ''v'') None (empty_cache ref_config)) = False
   \<and> cacheIndex (snd (set_c ref_lib (io_ok\<lparr>write_ok := (\<lambda>_. False)\<rparr>) 0 (JStr ''k'') (JStr ''v'') None (empty_cache ref_config))) = []"
proof -
  have h: "\<not> write_ok (io_ok\<lparr>write_ok := (\<lambda>_. False)\<rparr>) (generateCacheKey ref_lib (JStr ''k''))"
    by simp
  have e: "cacheIndex (empty_cache ref_config) = []"
    by (simp add: empty_cache_def initializeCache_def loadCacheIndex_def updateCacheStats_def)
  from set_failed_write_keeps_index [OF h, of 0 "JStr ''v''" None "empty_cache ref_config"] h e
  show ?thesis by simp
qed

subsection \<open>Keys that share a content key\<close>




lemma generateCacheKey_alias:
  "js_typeof v \<noteq> ''string'' \<Longrightarrow> json_stringify lib v = s \<Longrightarrow>
   generateCacheKey lib v = generateCacheKey lib (JStr s)"
  by (cases v) (simp_all add: generateCacheKey_def)









subsection \<open>Hit and miss counters\<close>

lemma sweep_entry_keeps:
  "cacheStats (fst (sweep_entry io ck m acc)) = cacheStats (fst acc)"
  "config (fst (sweep_entry io ck m acc)) = config (fst acc)"
  "indexFile (fst (sweep_entry io ck m acc)) = indexFile (fst acc)"
  by (simp_all add: sweep_entry_def split: prod.splits option.splits)

lemma expired_loop_keeps:
  "cacheStats (fst (expired_loop io now xs acc)) = cacheStats (fst acc)
   \<and> config (fst (expired_loop io now xs acc)) = config (fst acc)
   \<and> indexFile (fst (expired_loop io now xs acc)) = indexFile (fst acc)"
  by (induction io now xs acc rule: expired_loop.induct) (simp_all add: sweep_entry_keeps)

lemma oversized_loop_keeps:
  "cacheStats (fst (oversized_loop io xs acc)) = cacheStats (fst acc)
   \<and> config (fst (oversized_loop io xs acc)) = config (fst acc)
   \<and> indexFile (fst (oversized_loop io xs acc)) = indexFile (fst acc)"
  by (induction io xs acc rule: oversized_loop.induct) (simp_all add: sweep_entry_keeps)

lemma set_c_counters:
  "hits (cacheStats (snd (set_c lib io now k d t st))) = hits (cacheStats st)"
  "misses (cacheStats (snd (set_c lib io now k d t st))) = misses (cacheStats st)"
  by (simp_all add: set_c_def Let_def saveCacheIndex_simps updateCacheStats_simps split: prod.splits)

lemma delete_counters:
  "hits (cacheStats (snd (delete lib io now k st))) = hits (cacheStats st)"
  "misses (cacheStats (snd (delete lib io now k st))) = misses (cacheStats st)"
  by (simp_all add: delete_def Let_def saveCacheIndex_simps updateCacheStats_simps split: option.splits)

lemma has_counters:
  "hits (cacheStats (snd (has lib io now k st))) = hits (cacheStats st)"
  "misses (cacheStats (snd (has lib io now k st))) = misses (cacheStats st)"
  by (simp_all add: has_def Let_def delete_counters split: option.splits)

lemma count_simps:
  "hits (cacheStats (count_hit st)) = hits (cacheStats st) + 1"
  "misses (cacheStats (count_hit st)) = misses (cacheStats st)"
  "hits (cacheStats (count_miss st)) = hits (cacheStats st)"
  "misses (cacheStats (count_miss st)) = misses (cacheStats st) + 1"
  "cacheIndex (count_hit st) = cacheIndex st" "cacheIndex (count_miss st) = cacheIndex st"
  "files (count_hit st) = files st" "files (count_miss st) = files st"
  "indexFile (count_hit st) = indexFile st" "indexFile (count_miss st) = indexFile st"
  "config (count_hit st) = config st" "config (count_miss st) = config st"
  by (simp_all add: count_hit_def count_miss_def)

lemma cleanupExpired_counters:
  "hits (cacheStats (snd (cleanupExpired io now st))) = hits (cacheStats st)"
  "misses (cacheStats (snd (cleanupExpired io now st))) = misses (cacheStats st)"
  using expired_loop_keeps [of io now "cacheIndex st" "(st, 0, 0)"]
  by (auto simp: cleanupExpired_def Let_def saveCacheIndex_simps updateCacheStats_simps
      split: prod.splits)

lemma cleanupOversized_counters:
  "hits (cacheStats (snd (cleanupOversized io now st))) = hits (cacheStats st)"
  "misses (cacheStats (snd (cleanupOversized io now st))) = misses (cacheStats st)"
  using oversized_loop_keeps [of io "sort_key (\<lambda>e. timestamp (snd e)) (cacheIndex st)" "(st, 0, 0)"]
  by (auto simp: cleanupOversized_def Let_def saveCacheIndex_simps updateCacheStats_simps
      split: prod.splits)

lemma cleanup_counters:
  "hits (cacheStats (snd (cleanup io now st))) = hits (cacheStats st)"
  "misses (cacheStats (snd (cleanup io now st))) = misses (cacheStats st)"
  using cleanupExpired_counters [of io now st]
    cleanupOversized_counters [of io now "snd (cleanupExpired io now st)"]
  by (auto simp: cleanup_def split: prod.splits)

lemma clear_counters:
  "hits (cacheStats (snd (clear io now st))) = 0"
  "misses (cacheStats (snd (clear io now st))) = 0"
  by (simp_all add: clear_def Let_def saveCacheIndex_simps split: prod.splits)


lemma getStats_counters:
  "cacheStats (snd (getStats st)) = cacheStats st"
  by (simp add: getStats_def)

lemma get_counts:
  "hits (cacheStats (snd (get lib io now k st)))
     = hits (cacheStats st) + (if served lib io now k st then 1 else 0)"
  "misses (cacheStats (snd (get lib io now k st)))
     = misses (cacheStats st) + (if served lib io now k st then 0 else 1)"
  by (auto simp: get_def served_def Let_def count_simps delete_counters
      split: option.splits cache_file.splits)

lemma exec_counters:
  assumes "c \<noteq> Clear"
  shows "hits (cacheStats st) \<le> hits (cacheStats (exec lib io (now, c) st))"
    and "misses (cacheStats st) \<le> misses (cacheStats (exec lib io (now, c) st))"
  using assms
  by (cases c; simp add: set_c_counters get_counts has_counters delete_counters
      cleanupExpired_counters cleanupOversized_counters cleanup_counters getStats_counters)+

lemma run_counters:
  "Clear \<notin> snd ` set calls \<Longrightarrow>
   hits (cacheStats st) \<le> hits (cacheStats (run lib io calls st))
   \<and> misses (cacheStats st) \<le> misses (cacheStats (run lib io calls st))"
proof (induction calls arbitrary: st)
  case Nil
  then show ?case by (simp add: run_def)
next
  case (Cons c calls)
  obtain now oc where c: "c = (now, oc)" by (cases c)
  from Cons.prems c have nc: "oc \<noteq> Clear" and rest: "Clear \<notin> snd ` set calls" by auto
  from Cons.IH [OF rest, of "exec lib io c st"] exec_counters [OF nc, of st lib io now] c
  show ?case by (simp add: run_def)
qed

text \<open>
  Claim C7, amended. Across any sequence of public calls that contains no \<^verbatim>\<open>clear\<close>, the
  \<open>hits\<close> and \<open>misses\<close> counters never decrease; \<^verbatim>\<open>clear\<close> resets both to zero.
\<close>

theorem counters_monotone_without_clear:
  "(Clear \<notin> snd ` set calls \<longrightarrow>
      hits (cacheStats st) \<le> hits (cacheStats (run lib io calls st))
      \<and> misses (cacheStats st) \<le> misses (cacheStats (run lib io calls st)))
   \<and> hits (cacheStats (exec lib io (now, Clear) st)) = 0
   \<and> misses (cacheStats (exec lib io (now, Clear) st)) = 0"
  using run_counters [of calls st lib io] by (simp add: clear_counters)

lemma empty_cache_simps:
  "cacheIndex (empty_cache cfg) = []"
  "config (empty_cache cfg) = cfg"
  "files (empty_cache cfg) = Map.empty"
  "indexFile (empty_cache cfg) = None"
  "cacheStats (empty_cache cfg)
     = \<lparr> totalSize = 0, totalFiles = 0, hits = 0, misses = 0, lastCleanup = None \<rparr>"
  by (simp_all add: empty_cache_def initializeCache_def loadCacheIndex_def updateCacheStats_def)

theorem counters_monotone_without_clear_witness:
  "Clear \<notin> snd ` set [(0, Get (JStr ''k'')), (1, Has (JStr ''k''))]
   \<and> misses (cacheStats (empty_cache ref_config))
       \<le> misses (cacheStats (run ref_lib io_ok [(0, Get (JStr ''k'')), (1, Has (JStr ''k''))]
                                (empty_cache ref_config)))
   \<and> misses (cacheStats (run ref_lib io_ok [(0, Get (JStr ''k'')), (1, Has (JStr ''k''))]
                                (empty_cache ref_config))) = 1"
proof -
  have h: "Clear \<notin> snd ` set [(0::int, Get (JStr ''k'')), (1, Has (JStr ''k''))]" by simp
  have v: "misses (cacheStats (run ref_lib io_ok [(0, Get (JStr ''k'')), (1, Has (JStr ''k''))]
                                (empty_cache ref_config))) = 1"
    by (simp add: run_def get_def has_def empty_cache_simps count_simps)
  from counters_monotone_without_clear
         [of "[(0, Get (JStr ''k'')), (1, Has (JStr ''k''))]" "empty_cache ref_config"
             ref_lib io_ok 0] h v
  show ?thesis by simp
qed

text \<open>
  Claim C7 as stated fails at \<^verbatim>\<open>clear\<close>: after one missed \<^verbatim>\<open>get\<close> on an empty cache
  \<open>misses\<close> is 1, and after a following \<^verbatim>\<open>clear\<close> it is 0.
\<close>

theorem clear_resets_counters_counterexample:
  "misses (cacheStats (run ref_lib io_ok [(0, Get (JStr ''k''))] (empty_cache ref_config))) = 1
   \<and> misses (cacheStats (run ref_lib io_ok [(0, Get (JStr ''k'')), (1, Clear)]
                            (empty_cache ref_config))) = 0"
  by (simp add: run_def get_def empty_cache_simps count_simps clear_counters)






lemma initializeCache_simps:
  "config (initializeCache cfg fs idx) = cfg"
  "files (initializeCache cfg fs idx) = fs"
  "indexFile (initializeCache cfg fs idx) = idx"
  "cacheIndex (initializeCache cfg fs (Some sn)) = snap_index sn"
  "hits (cacheStats (initializeCache cfg fs (Some sn))) = hits (snap_stats sn)"
  "misses (cacheStats (initializeCache cfg fs (Some sn))) = misses (snap_stats sn)"
  "totalFiles (cacheStats (initializeCache cfg fs (Some sn))) = length (snap_index sn)"
  by (simp_all add: initializeCache_def loadCacheIndex_def updateCacheStats_def split: option.splits)




subsection \<open>Codec stages that cannot be reversed\<close>








subsection \<open>Persistence of the index\<close>

text \<open>
  The other paths that change the index save it: \<^verbatim>\<open>set\<close>, and the expired branch of
  \<^verbatim>\<open>get\<close> (through \<^verbatim>\<open>delete\<close>), leave a snapshot that lists the in-memory index.
\<close>

lemma get_expired_persists:
  assumes "map_of (cacheIndex st) (generateCacheKey lib k) = Some m"
    and "now > expiresAt m"
    and "unlink_ok io (generateCacheKey lib k)"
    and "index_write_ok io"
  shows "map_option snap_index (indexFile (snd (get lib io now k st)))
           = Some (cacheIndex (snd (get lib io now k st)))"
  using assms
  by (simp add: get_def delete_def Let_def count_simps saveCacheIndex_def
      updateCacheStats_simps)

lemma set_c_persists:
  assumes "write_ok io (generateCacheKey lib k)" and "index_write_ok io"
  shows "map_option snap_index (indexFile (snd (set_c lib io now k d t st)))
           = Some (cacheIndex (snd (set_c lib io now k d t st)))"
  using assms
  by (simp add: set_c_def Let_def saveCacheIndex_def updateCacheStats_simps split: prod.splits)

text \<open>
  Claim C8 at the self-heal path of \<^verbatim>\<open>get\<close>. The index of \<open>orphan_cache\<close> lists an entry
  whose file is missing. \<^verbatim>\<open>get\<close> drops the entry from the in-memory index and returns
  \<^verbatim>\<open>null\<close>, but writes no snapshot and does not recompute the statistics: the index file
  still lists the entry and \<open>totalFiles\<close> is still 1.
\<close>

theorem self_heal_leaves_snapshot_stale:
  "map fst (cacheIndex orphan_cache) = [generateCacheKey ref_lib (JStr ''k'')]
   \<and> files orphan_cache (generateCacheKey ref_lib (JStr ''k'')) = None
   \<and> map_option (\<lambda>sn. map fst (snap_index sn)) (indexFile orphan_cache) = Some [''md5-k'']
   \<and> fst (get ref_lib io_ok 5 (JStr ''k'') orphan_cache) = JNull
   \<and> cacheIndex (snd (get ref_lib io_ok 5 (JStr ''k'') orphan_cache)) = []
   \<and> indexFile (snd (get ref_lib io_ok 5 (JStr ''k'') orphan_cache)) = indexFile orphan_cache
   \<and> totalFiles (cacheStats (snd (get ref_lib io_ok 5 (JStr ''k'') orphan_cache))) = 1"
  by (simp add: get_def generateCacheKey_def ref_lib_def orphan_cache_def
      initializeCache_simps snapshot_of_def entry_k_def count_simps Let_def
      count_miss_def AList.delete_eq)

subsection \<open>Expiry at the boundary\<close>

lemma set_c_entry:
  assumes "write_ok io (generateCacheKey lib k)"
    and "encode lib (config st) (case d of JStr s \<Rightarrow> s | _ \<Rightarrow> json_stringify lib d)
           = (enc, isC, isE)"
    and "t \<noteq> 0"
  shows "\<exists>md. map_of (cacheIndex (snd (set_c lib io now k d (Some t) st)))
                  (generateCacheKey lib k) = Some md
            \<and> files (snd (set_c lib io now k d (Some t) st)) (generateCacheKey lib k)
                = Some (CacheFile md enc)
            \<and> expiresAt md = now + t \<and> isCompressed md = isC \<and> isEncrypted md = isE
            \<and> dataType md = js_typeof d"
    and "config (snd (set_c lib io now k d (Some t) st)) = config st"
    and "fst (set_c lib io now k d (Some t) st)"
  using assms
  by (simp_all add: set_c_def Let_def saveCacheIndex_simps updateCacheStats_simps
      AList.update_conv')


lemma alist_delete_keys:
  "fst ` set (AList.delete k al) = fst ` set al - {k}"
  by (auto simp: AList.delete_eq)

lemma get_expired_removes:
  assumes "map_of (cacheIndex st) (generateCacheKey lib k) = Some m"
    and "now > expiresAt m"
    and "unlink_ok io (generateCacheKey lib k)"
  shows "fst (get lib io now k st) = JNull"
    and "generateCacheKey lib k \<notin> fst ` set (cacheIndex (snd (get lib io now k st)))"
    and "files (snd (get lib io now k st)) (generateCacheKey lib k) = None"
    and "misses (cacheStats (snd (get lib io now k st))) = misses (cacheStats st) + 1"
  using assms
  by (simp_all add: get_def delete_def Let_def count_simps saveCacheIndex_simps
      updateCacheStats_simps alist_delete_keys)

lemma get_fresh_value:
  assumes "codec_lossless lib"
    and "js_typeof d \<noteq> ''string'' \<longrightarrow> json_parse lib (json_stringify lib d) = Some d"
    and "encode lib (config st) (case d of JStr s \<Rightarrow> s | _ \<Rightarrow> json_stringify lib d)
           = (enc, isC, isE)"
    and "map_of (cacheIndex st) (generateCacheKey lib k) = Some md"
    and "files st (generateCacheKey lib k) = Some (CacheFile fm enc)"
    and "isCompressed md = isC" and "isEncrypted md = isE" and "dataType md = js_typeof d"
    and "\<not> now > expiresAt md"
    and "read_ok io (generateCacheKey lib k)"
  shows "get lib io now k st = (d, count_hit st)"
proof -
  have dec: "decode lib (config st) enc isC isE
               = (case d of JStr s \<Rightarrow> s | _ \<Rightarrow> json_stringify lib d)"
    by (rule decode_encode [OF assms(1) assms(3)])
  show ?thesis
    using assms(2,4-10) dec by (cases d) (simp_all add: get_def Let_def)
qed



text \<open>
  Claim C4. After \<^verbatim>\<open>set(k, v, {ttl: 1000})\<close> at time \<open>t\<close> (its file written), a \<^verbatim>\<open>get(k)\<close> at
  \<open>t + 999\<close> returns \<open>v\<close> and counts a hit; a \<^verbatim>\<open>get(k)\<close> at \<open>t + 1001\<close>, whether it comes
  directly after the \<^verbatim>\<open>set\<close> or after the first \<^verbatim>\<open>get\<close>, returns \<^verbatim>\<open>null\<close> and removes the
  entry from the index and its file from the directory. The platform's transforms are
  inverse to each other and, for a value that is not a string, \<^verbatim>\<open>JSON.parse\<close> gives the
  value back from its JSON text.
\<close>

theorem ttl_boundary:
  assumes lossless: "codec_lossless lib"
    and json: "js_typeof v \<noteq> ''string'' \<longrightarrow> json_parse lib (json_stringify lib v) = Some v"
    and w: "write_ok io (generateCacheKey lib k)"
    and r: "read_ok io (generateCacheKey lib k)"
    and u: "unlink_ok io (generateCacheKey lib k)"
    and s1: "set_c lib io t k v (Some 1000) st = (ok, st1)"
    and g1: "get lib io (t + 999) k st1 = (r1, st2)"
    and g2: "get lib io (t + 1001) k st1 = (r2, st3)"
    and g3: "get lib io (t + 1001) k st2 = (r3, st4)"
  shows "ok \<and> r1 = v \<and> hits (cacheStats st2) = hits (cacheStats st1) + 1
    \<and> r2 = JNull
    \<and> generateCacheKey lib k \<notin> fst ` set (cacheIndex st3)
    \<and> files st3 (generateCacheKey lib k) = None
    \<and> misses (cacheStats st3) = misses (cacheStats st1) + 1
    \<and> r3 = JNull
    \<and> generateCacheKey lib k \<notin> fst ` set (cacheIndex st4)
    \<and> files st4 (generateCacheKey lib k) = None"
proof -
  obtain enc isC isE where
    enc: "encode lib (config st) (case v of JStr s \<Rightarrow> s | _ \<Rightarrow> json_stringify lib v)
            = (enc, isC, isE)"
    by (cases "encode lib (config st) (case v of JStr s \<Rightarrow> s | _ \<Rightarrow> json_stringify lib v)")
  have ne: "(1000::int) \<noteq> 0" by simp
  from s1 have ok: "ok = fst (set_c lib io t k v (Some 1000) st)"
    and st1: "st1 = snd (set_c lib io t k v (Some 1000) st)" by simp_all
  from set_c_entry(1) [OF w enc ne, where now = t] obtain md where
    idx: "map_of (cacheIndex st1) (generateCacheKey lib k) = Some md"
    and blob: "files st1 (generateCacheKey lib k) = Some (CacheFile md enc)"
    and ex: "expiresAt md = t + 1000"
    and flags: "isCompressed md = isC" "isEncrypted md = isE" "dataType md = js_typeof v"
    unfolding st1 by blast
  have cfg: "config st1 = config st" unfolding st1 by (rule set_c_entry(2) [OF w enc ne])
  have "ok" unfolding ok by (rule set_c_entry(3) [OF w enc ne])
  moreover
  have fresh: "\<not> t + 999 > expiresAt md" using ex by simp
  have "get lib io (t + 999) k st1 = (v, count_hit st1)"
    by (rule get_fresh_value [OF lossless json _ idx blob flags fresh r]) (simp add: cfg enc)
  with g1 have r1: "r1 = v" and st2: "st2 = count_hit st1" by simp_all
  moreover
  have late: "t + 1001 > expiresAt md" using ex by simp
  have idx2: "map_of (cacheIndex st2) (generateCacheKey lib k) = Some md"
    using idx by (simp add: st2 count_simps)
  note a = get_expired_removes [OF idx late u] and b = get_expired_removes [OF idx2 late u]
  ultimately show ?thesis
    using a b g2 g3 by (simp add: count_simps)
qed

theorem ttl_boundary_witness:
  "codec_lossless ref_lib
   \<and> fst (set_c ref_lib io_ok 0 (JStr ''k'') (JNum 42) (Some 1000) (empty_cache ref_config))
   \<and> fst (get ref_lib io_ok (0 + 999) (JStr ''k'')
        (snd (set_c ref_lib io_ok 0 (JStr ''k'') (JNum 42) (Some 1000) (empty_cache ref_config))))
       = JNum 42
   \<and> fst (get ref_lib io_ok (0 + 1001) (JStr ''k'')
        (snd (set_c ref_lib io_ok 0 (JStr ''k'') (JNum 42) (Some 1000) (empty_cache ref_config))))
       = JNull
   \<and> generateCacheKey ref_lib (JStr ''k'')
       \<notin> fst ` set (cacheIndex (snd (get ref_lib io_ok (0 + 1001) (JStr ''k'')
        (snd (set_c ref_lib io_ok 0 (JStr ''k'') (JNum 42) (Some 1000)
               (empty_cache ref_config))))))"
proof -
  have j: "js_typeof (JNum 42) \<noteq> ''string''
             \<longrightarrow> json_parse ref_lib (json_stringify ref_lib (JNum 42)) = Some (JNum 42)"
    by (simp add: ref_lib_def ref_parse_def)
  have w: "write_ok io_ok (generateCacheKey ref_lib (JStr ''k''))"
    and r: "read_ok io_ok (generateCacheKey ref_lib (JStr ''k''))"
    and u: "unlink_ok io_ok (generateCacheKey ref_lib (JStr ''k''))"
    by (simp_all add: io_ok_def)
  from ttl_boundary [OF ref_lib_lossless j w r u prod.collapse [symmetric]
      prod.collapse [symmetric] prod.collapse [symmetric] prod.collapse [symmetric]]
    ref_lib_lossless
  show ?thesis by blast
qed

subsection \<open>The consistency invariant\<close>

lemma io_ok_simps:
  "write_ok io_ok k" "unlink_ok io_ok k" "read_ok io_ok k" "index_write_ok io_ok"
  by (simp_all add: io_ok_def)

lemma consistent_same:
  "cacheIndex st' = cacheIndex st \<Longrightarrow> files st' = files st \<Longrightarrow> consistent st' = consistent st"
  by (simp add: consistent_def)

lemma consistent_remove:
  assumes "consistent st"
  shows "consistent (st\<lparr>files := (files st)(ck := None),
                        cacheIndex := AList.delete ck (cacheIndex st)\<rparr>)"
  using assms by (auto simp: consistent_def alist_delete_keys AList.distinct_delete)

lemma consistent_heal:
  assumes "consistent st" and "files st ck = None"
  shows "consistent (st\<lparr>cacheIndex := AList.delete ck (cacheIndex st)\<rparr>)"
  using assms by (auto simp: consistent_def alist_delete_keys AList.distinct_delete)

lemma consistent_count:
  "consistent (count_miss st) = consistent st" "consistent (count_hit st) = consistent st"
  by (simp_all add: consistent_def count_simps)

lemma consistent_stats:
  "consistent (updateCacheStats st) = consistent st"
  "consistent (saveCacheIndex io now st) = consistent st"
  "consistent (st\<lparr>cacheStats := cs\<rparr>) = consistent st"
  by (simp_all add: consistent_def updateCacheStats_simps saveCacheIndex_simps)

lemma set_c_consistent:
  assumes "consistent st"
  shows "consistent (snd (set_c lib io_ok now k d t st))"
  using assms
  by (auto simp: set_c_def Let_def io_ok_simps consistent_def saveCacheIndex_simps
      updateCacheStats_simps AList.dom_update AList.distinct_update split: prod.splits)

lemma delete_consistent:
  assumes "consistent st"
  shows "consistent (snd (delete lib io_ok now k st))"
  using consistent_remove [OF assms, of "generateCacheKey lib k"] assms
  by (simp add: delete_def Let_def io_ok_simps consistent_stats split: option.splits)

lemma get_consistent:
  assumes "consistent st"
  shows "consistent (snd (get lib io_ok now k st))"
  using delete_consistent [OF assms, of lib now k] assms
    consistent_heal [OF assms, of "generateCacheKey lib k"]
  by (simp add: get_def Let_def consistent_count split: option.splits cache_file.splits)

lemma has_consistent:
  assumes "consistent st"
  shows "consistent (snd (has lib io_ok now k st))"
  using delete_consistent [OF assms, of lib now k] assms
  by (simp add: has_def Let_def split: option.splits)

lemma sweep_entry_consistent:
  assumes "consistent (fst acc)"
  shows "consistent (fst (sweep_entry io_ok ck m acc))"
proof -
  obtain st c z where acc: "acc = (st, c, z)" by (cases acc)
  from assms have st: "consistent st" by (simp add: acc)
  show ?thesis
    using consistent_remove [OF st, of ck] consistent_heal [OF st, of ck]
    by (simp add: sweep_entry_def acc io_ok_simps split: option.splits)
qed

lemma expired_loop_consistent:
  "consistent (fst acc) \<Longrightarrow> consistent (fst (expired_loop io_ok now xs acc))"
  by (induction io_ok now xs acc rule: expired_loop.induct)
     (simp_all add: sweep_entry_consistent)

lemma oversized_loop_consistent:
  "consistent (fst acc) \<Longrightarrow> consistent (fst (oversized_loop io_ok xs acc))"
proof (induction xs arbitrary: acc)
  case Nil
  then show ?case by simp
next
  case (Cons e xs)
  obtain ck m where e: "e = (ck, m)" by (cases e)
  obtain st c z where acc: "acc = (st, c, z)" by (cases acc)
  from Cons.prems have "consistent (fst (sweep_entry io_ok ck m acc))"
    by (rule sweep_entry_consistent)
  from Cons.IH [OF this] Cons.prems show ?case by (simp add: e acc)
qed

lemma cleanupExpired_consistent:
  assumes "consistent st"
  shows "consistent (snd (cleanupExpired io_ok now st))"
  using expired_loop_consistent [of "(st, 0, 0)" now "cacheIndex st"] assms
  by (auto simp: cleanupExpired_def Let_def consistent_stats split: prod.splits)

lemma cleanupOversized_consistent:
  assumes "consistent st"
  shows "consistent (snd (cleanupOversized io_ok now st))"
  using oversized_loop_consistent
          [of "(st, 0, 0)" "sort_key (\<lambda>e. timestamp (snd e)) (cacheIndex st)"] assms
  by (auto simp: cleanupOversized_def Let_def consistent_stats split: prod.splits)

lemma cleanup_consistent:
  assumes "consistent st"
  shows "consistent (snd (cleanup io_ok now st))"
  using cleanupOversized_consistent [OF cleanupExpired_consistent [OF assms], of now now]
  by (auto simp: cleanup_def split: prod.splits)

lemma clear_loop_dom:
  "dom (fst (clear_loop io_ok xs (fs, n))) = dom fs - fst ` set xs"
proof (induction xs arbitrary: fs n)
  case Nil
  then show ?case by simp
next
  case (Cons e xs)
  obtain ck m where e: "e = (ck, m)" by (cases e)
  show ?case
    by (auto simp: e io_ok_simps Cons.IH split: if_splits)
qed

lemma clear_consistent:
  assumes "consistent st"
  shows "consistent (snd (clear io_ok now st))"
  using clear_loop_dom [of "cacheIndex st" "files st" 0] assms
  by (auto simp: clear_def Let_def consistent_def saveCacheIndex_simps split: prod.splits)

lemma exec_consistent:
  assumes "consistent st"
  shows "consistent (exec lib io_ok c st)"
proof -
  obtain now oc where c: "c = (now, oc)" by (cases c)
  show ?thesis
    unfolding c using assms
    by (cases oc)
       (simp_all add: set_c_consistent get_consistent has_consistent delete_consistent
          cleanupExpired_consistent cleanupOversized_consistent cleanup_consistent
          clear_consistent getStats_def)
qed

lemma run_consistent:
  "consistent st \<Longrightarrow> consistent (run lib io_ok calls st)"
  by (induction calls arbitrary: st) (simp_all add: run_def exec_consistent)

text \<open>
  Claim C2. Starting from an empty cache, after any finite sequence of \<^verbatim>\<open>set\<close>, \<^verbatim>\<open>get\<close>,
  \<^verbatim>\<open>has\<close>, \<^verbatim>\<open>delete\<close>, \<^verbatim>\<open>cleanupExpired\<close>, \<^verbatim>\<open>cleanupOversized\<close>, \<^verbatim>\<open>cleanup\<close>, \<^verbatim>\<open>clear\<close> and
  \<^verbatim>\<open>getStats\<close> calls in which every file-system call succeeds, no content key occurs twice
  in the index and the content keys of the index are exactly the keys that have a cache
  file: each index entry has its one file and each file its one index entry.
\<close>

theorem index_storage_consistent:
  "distinct (map fst (cacheIndex (run lib io_ok calls (empty_cache cfg))))
   \<and> fst ` set (cacheIndex (run lib io_ok calls (empty_cache cfg)))
       = dom (files (run lib io_ok calls (empty_cache cfg)))"
proof -
  have "consistent (empty_cache cfg)" by (simp add: consistent_def empty_cache_simps)
  then have "consistent (run lib io_ok calls (empty_cache cfg))" by (rule run_consistent)
  then show ?thesis by (simp add: consistent_def)
qed

theorem index_storage_consistent_witness:
  "distinct (map fst (cacheIndex (run ref_lib io_ok
      [(0, Set (JStr ''a'') (JStr ''x'') None), (1, Set (JNum 7) (JNum 42) (Some 10)),
       (5, Get (JStr ''a'')), (20, Get (JNum 7)), (21, Delete (JStr ''a'')), (22, Cleanup),
       (23, Clear)]
      (empty_cache ref_config))))
   \<and> fst ` set (cacheIndex (run ref_lib io_ok
      [(0, Set (JStr ''a'') (JStr ''x'') None), (1, Set (JNum 7) (JNum 42) (Some 10)),
       (5, Get (JStr ''a'')), (20, Get (JNum 7)), (21, Delete (JStr ''a'')), (22, Cleanup),
       (23, Clear)]
      (empty_cache ref_config)))
     = dom (files (run ref_lib io_ok
      [(0, Set (JStr ''a'') (JStr ''x'') None), (1, Set (JNum 7) (JNum 42) (Some 10)),
       (5, Get (JStr ''a'')), (20, Get (JNum 7)), (21, Delete (JStr ''a'')), (22, Cleanup),
       (23, Clear)]
      (empty_cache ref_config)))"
  by (rule index_storage_consistent)

subsection \<open>Size-bound eviction\<close>

lemma distinct_map_insort_key:
  "distinct (map g (insort_key f x xs)) = (g x \<notin> g ` set xs \<and> distinct (map g xs))"
  by (induction xs) (auto simp: set_insort_key)

lemma distinct_map_sort_key:
  "distinct (map g (sort_key f xs)) = distinct (map g xs)"
  by (induction xs) (simp_all add: distinct_map_insort_key)

lemma sum_list_insort_key:
  "sum_list (map h (insort_key f x xs)) = (h x :: nat) + sum_list (map h xs)"
  by (induction xs) simp_all

lemma sum_list_sort_key:
  "sum_list (map h (sort_key f xs)) = (sum_list (map h xs) :: nat)"
  by (induction xs) (simp_all add: sum_list_insort_key)

lemma alist_delete_set:
  assumes "distinct (map fst ((ck, m) # xs))" and "set al = set ((ck, m) # xs)"
  shows "set (AList.delete ck al) = set xs"
  using assms by (force simp: AList.delete_eq)

lemma sweep_entry_removes:
  assumes "files st ck \<noteq> None"
  shows "sweep_entry io_ok ck m (st, cnt, sz)
           = (st\<lparr>files := (files st)(ck := None),
                  cacheIndex := AList.delete ck (cacheIndex st)\<rparr>,
              cnt + 1, sz + size_m m)"
  using assms by (auto simp: sweep_entry_def io_ok_simps)

lemma oversized_loop_spec:
  assumes "distinct (map fst (cacheIndex st))"
    and "set (cacheIndex st) = set xs"
    and "distinct (map fst xs)"
    and "fst ` set xs \<subseteq> dom (files st)"
    and "int (totalSize (cacheStats st)) - int sz = int (sum_list (map (\<lambda>e. size_m (snd e)) xs))"
  shows "\<exists>n st'. n \<le> length xs
           \<and> oversized_loop io_ok xs (st, cnt, sz)
               = (st', cnt + n, sz + sum_list (map (\<lambda>e. size_m (snd e)) (take n xs)))
           \<and> set (cacheIndex st') = set (drop n xs)
           \<and> distinct (map fst (cacheIndex st'))
           \<and> cacheStats st' = cacheStats st \<and> config st' = config st
           \<and> sum_list (map (\<lambda>e. size_m (snd e)) (drop n xs)) \<le> maxCacheSize (config st)
           \<and> (\<forall>j<n. maxCacheSize (config st)
                       < sum_list (map (\<lambda>e. size_m (snd e)) (drop j xs)))"
  using assms
proof (induction xs arbitrary: st cnt sz)
  case Nil
  then show ?case by (intro exI [of _ 0] exI [of _ st]) simp
next
  case (Cons e xs)
  obtain ck m where e: "e = (ck, m)" by (cases e)
  let ?sizes = "\<lambda>ys. sum_list (map (\<lambda>e. size_m (snd e)) ys)"
  show ?case
  proof (cases "int (totalSize (cacheStats st)) - int sz \<le> int (maxCacheSize (config st))")
    case True
    with Cons.prems(5) have "?sizes (e # xs) \<le> maxCacheSize (config st)" by simp
    with True Cons.prems show ?thesis
      by (intro exI [of _ 0] exI [of _ st]) (simp add: e)
  next
    case False
    let ?st1 = "st\<lparr>files := (files st)(ck := None),
                    cacheIndex := AList.delete ck (cacheIndex st)\<rparr>"
    from Cons.prems(4) have blob: "files st ck \<noteq> None" by (auto simp: e)
    have step: "oversized_loop io_ok (e # xs) (st, cnt, sz)
                  = oversized_loop io_ok xs (?st1, cnt + 1, sz + size_m m)"
      using False by (simp add: e sweep_entry_removes [OF blob])
    have p1: "distinct (map fst (cacheIndex ?st1))"
      using Cons.prems(1) by (simp add: AList.distinct_delete)
    have p2: "set (cacheIndex ?st1) = set xs"
      using alist_delete_set [of ck m xs "cacheIndex st"] Cons.prems(2,3) by (simp add: e)
    have p3: "distinct (map fst xs)" using Cons.prems(3) by simp
    have p4: "fst ` set xs \<subseteq> dom (files ?st1)"
      using Cons.prems(3,4) by (auto simp: e)
    have p5: "int (totalSize (cacheStats ?st1)) - int (sz + size_m m) = int (?sizes xs)"
      using Cons.prems(5) by (simp add: e)
    from Cons.IH [OF p1 p2 p3 p4 p5, of "cnt + 1"] obtain n st' where
      n: "n \<le> length xs"
      and run: "oversized_loop io_ok xs (?st1, cnt + 1, sz + size_m m)
                 = (st', cnt + 1 + n, sz + size_m m + ?sizes (take n xs))"
      and rest: "set (cacheIndex st') = set (drop n xs)" "distinct (map fst (cacheIndex st'))"
        "cacheStats st' = cacheStats st" "config st' = config st"
        "?sizes (drop n xs) \<le> maxCacheSize (config st)"
      and minimal: "\<forall>j<n. maxCacheSize (config st) < ?sizes (drop j xs)"
      by auto
    have over: "maxCacheSize (config st) < ?sizes (e # xs)"
      using False Cons.prems(5) by linarith
    have minimal': "\<forall>j<Suc n. maxCacheSize (config st) < ?sizes (drop j (e # xs))"
    proof (intro allI impI)
      fix j assume "j < Suc n"
      then show "maxCacheSize (config st) < ?sizes (drop j (e # xs))"
        using over minimal by (cases j) auto
    qed
    show ?thesis
      using n run rest minimal' step
      by (intro exI [of _ "Suc n"] exI [of _ st']) (simp add: e)
  qed
qed


lemma sorted_take_drop:
  assumes "sorted (map f xs)" and "e \<in> set (take n xs)" and "r \<in> set (drop n xs)"
  shows "f e \<le> f r"
proof -
  have "map f xs = map f (take n xs) @ map f (drop n xs)"
    by (simp flip: map_append)
  with assms(1) have "sorted (map f (take n xs) @ map f (drop n xs))" by simp
  with assms(2,3) show ?thesis by (auto simp: sorted_append)
qed

lemma take_drop_partition:
  assumes "distinct xs"
  shows "set xs - set (drop n xs) = set (take n xs)"
proof -
  define a b where "a = take n xs" and "b = drop n xs"
  have xs: "xs = a @ b" by (simp add: a_def b_def)
  from assms have "set a \<inter> set b = {}" unfolding xs by simp
  then have "set (a @ b) - set b = set a" by auto
  then show ?thesis by (simp add: a_def b_def)
qed

lemma sum_list_same_set:
  assumes "distinct xs" and "distinct ys" and "set xs = set ys"
  shows "sum_list (map h xs) = (sum_list (map h ys) :: nat)"
  using assms by (simp add: sum_list_distinct_conv_sum_set)

lemma distinct_keys_distinct: "distinct (map fst xs) \<Longrightarrow> distinct xs"
  by (simp add: distinct_map)

text \<open>
  The conditions of the eviction theorem are the invariants of the data model: they hold in
  every state reached from the empty cache by public calls whose file-system calls succeed.
\<close>

lemma in_step_update: "stats_in_step (updateCacheStats st)"
  by (simp add: stats_in_step_def updateCacheStats_simps)

lemma in_step_same:
  "cacheIndex st' = cacheIndex st \<Longrightarrow> totalSize (cacheStats st') = totalSize (cacheStats st)
   \<Longrightarrow> stats_in_step st' = stats_in_step st"
  by (simp add: stats_in_step_def)

lemma in_step_simps:
  "stats_in_step (saveCacheIndex io now st) = stats_in_step st"
  "stats_in_step (count_hit st) = stats_in_step st"
  "stats_in_step (count_miss st) = stats_in_step st"
  "stats_in_step (st\<lparr>cacheStats := (cacheStats st)\<lparr>lastCleanup := x\<rparr>\<rparr>) = stats_in_step st"
  by (simp_all add: stats_in_step_def saveCacheIndex_simps count_hit_def count_miss_def)

lemma set_c_in_step:
  "stats_in_step st \<Longrightarrow> stats_in_step (snd (set_c lib io now k d t st))"
  by (simp add: set_c_def Let_def in_step_simps in_step_update split: prod.splits)

lemma delete_in_step:
  "stats_in_step st \<Longrightarrow> stats_in_step (snd (delete lib io now k st))"
  by (simp add: delete_def Let_def in_step_simps in_step_update split: option.splits)

lemma has_in_step:
  "stats_in_step st \<Longrightarrow> stats_in_step (snd (has lib io now k st))"
  by (simp add: has_def Let_def delete_in_step split: option.splits)

lemma consistent_blob:
  assumes "consistent st" and "map_of (cacheIndex st) ck = Some m"
  shows "files st ck \<noteq> None"
proof -
  from assms(2) have "ck \<in> fst ` set (cacheIndex st)"
    by (metis map_of_eq_None_iff option.distinct(1))
  with assms(1) show ?thesis by (auto simp: consistent_def)
qed

lemma get_in_step:
  assumes "consistent st" and "stats_in_step st"
  shows "stats_in_step (snd (get lib io now k st))"
  using assms(2) delete_in_step [OF assms(2), of lib io now k]
    consistent_blob [OF assms(1), of "generateCacheKey lib k"]
  by (auto simp: get_def Let_def in_step_simps split: option.splits cache_file.splits)

lemma sweep_entry_count:
  "sweep_entry io ck m (st, c, z) = (st', c', z') \<Longrightarrow>
   c \<le> c' \<and> (c' = c \<longrightarrow> st' = st)"
  by (auto simp: sweep_entry_def split: option.splits if_splits)

lemma expired_loop_count:
  "expired_loop io now xs (st, c, z) = (st', c', z') \<Longrightarrow>
   c \<le> c' \<and> (c' = c \<longrightarrow> st' = st)"
proof (induction xs arbitrary: st c z)
  case Nil
  then show ?case by simp
next
  case (Cons e xs)
  obtain ck m where e: "e = (ck, m)" by (cases e)
  show ?case
  proof (cases "now > expiresAt m")
    case False
    with Cons.prems have "expired_loop io now xs (st, c, z) = (st', c', z')" by (simp add: e)
    then show ?thesis by (rule Cons.IH)
  next
    case True
    obtain st1 c1 z1 where sw: "sweep_entry io ck m (st, c, z) = (st1, c1, z1)"
      by (cases "sweep_entry io ck m (st, c, z)")
    with True Cons.prems have "expired_loop io now xs (st1, c1, z1) = (st', c', z')"
      by (simp add: e)
    from Cons.IH [OF this] sweep_entry_count [OF sw] show ?thesis by auto
  qed
qed

lemma oversized_loop_count:
  "oversized_loop io xs (st, c, z) = (st', c', z') \<Longrightarrow>
   c \<le> c' \<and> (c' = c \<longrightarrow> st' = st)"
proof (induction xs arbitrary: st c z)
  case Nil
  then show ?case by simp
next
  case (Cons e xs)
  obtain ck m where e: "e = (ck, m)" by (cases e)
  show ?case
  proof (cases "int (totalSize (cacheStats st)) - int z \<le> int (maxCacheSize (config st))")
    case True
    with Cons.prems show ?thesis by (simp add: e)
  next
    case False
    obtain st1 c1 z1 where sw: "sweep_entry io ck m (st, c, z) = (st1, c1, z1)"
      by (cases "sweep_entry io ck m (st, c, z)")
    with False Cons.prems have "oversized_loop io xs (st1, c1, z1) = (st', c', z')"
      by (simp add: e)
    from Cons.IH [OF this] sweep_entry_count [OF sw] show ?thesis by auto
  qed
qed

lemma cleanupExpired_in_step:
  assumes "stats_in_step st"
  shows "stats_in_step (snd (cleanupExpired io now st))"
proof -
  obtain st1 c1 z1 where l: "expired_loop io now (cacheIndex st) (st, 0, 0) = (st1, c1, z1)"
    by (cases "expired_loop io now (cacheIndex st) (st, 0, 0)")
  from expired_loop_count [OF l] have "c1 = 0 \<longrightarrow> st1 = st" by simp
  with assms show ?thesis
    by (auto simp: cleanupExpired_def l Let_def in_step_simps in_step_update
        saveCacheIndex_simps stats_in_step_def updateCacheStats_simps)
qed

lemma cleanupOversized_in_step:
  assumes "stats_in_step st"
  shows "stats_in_step (snd (cleanupOversized io now st))"
proof -
  let ?xs = "sort_key (\<lambda>e. timestamp (snd e)) (cacheIndex st)"
  obtain st1 c1 z1 where l: "oversized_loop io ?xs (st, 0, 0) = (st1, c1, z1)"
    by (cases "oversized_loop io ?xs (st, 0, 0)")
  from oversized_loop_count [OF l] have "c1 = 0 \<longrightarrow> st1 = st" by simp
  with assms show ?thesis
    by (auto simp: cleanupOversized_def l Let_def in_step_simps in_step_update)
qed

lemma cleanup_in_step:
  assumes "stats_in_step st"
  shows "stats_in_step (snd (cleanup io now st))"
  using cleanupOversized_in_step [OF cleanupExpired_in_step [OF assms], of io now io now]
  by (auto simp: cleanup_def split: prod.splits)

lemma clear_in_step: "stats_in_step (snd (clear io now st))"
  by (simp add: clear_def Let_def stats_in_step_def saveCacheIndex_simps split: prod.splits)

lemma exec_in_step:
  assumes "consistent st" and "stats_in_step st"
  shows "stats_in_step (exec lib io c st)"
proof -
  obtain now oc where c: "c = (now, oc)" by (cases c)
  show ?thesis
    unfolding c using assms
    by (cases oc)
       (simp_all add: set_c_in_step get_in_step has_in_step delete_in_step
          cleanupExpired_in_step cleanupOversized_in_step cleanup_in_step
          clear_in_step getStats_def)
qed

lemma run_in_step:
  "consistent st \<Longrightarrow> stats_in_step st \<Longrightarrow>
   consistent (run lib io_ok calls st) \<and> stats_in_step (run lib io_ok calls st)"
proof (induction calls arbitrary: st)
  case Nil
  then show ?case by (simp add: run_def)
next
  case (Cons c calls)
  have a: "consistent (exec lib io_ok c st)" using Cons.prems(1) by (rule exec_consistent)
  have b: "stats_in_step (exec lib io_ok c st)" using Cons.prems by (rule exec_in_step)
  from Cons.IH [OF a b] show ?case by (simp add: run_def)
qed

lemma reachable_in_step:
  "distinct (map fst (cacheIndex (run lib io_ok calls (empty_cache cfg))))
   \<and> totalSize (cacheStats (run lib io_ok calls (empty_cache cfg)))
       = sum_list (map (\<lambda>e. size_m (snd e)) (cacheIndex (run lib io_ok calls (empty_cache cfg))))
   \<and> fst ` set (cacheIndex (run lib io_ok calls (empty_cache cfg)))
       \<subseteq> dom (files (run lib io_ok calls (empty_cache cfg)))"
proof -
  have c: "consistent (empty_cache cfg)" by (simp add: consistent_def empty_cache_simps)
  have s: "stats_in_step (empty_cache cfg)" by (simp add: stats_in_step_def empty_cache_simps)
  from run_in_step [OF c s, of lib calls] show ?thesis
    by (auto simp: consistent_def stats_in_step_def)
qed

text \<open>
  Claim C5. Let the recorded total size, which is the sum of the sizes in the index, exceed
  \<open>maxCacheSize\<close>, with every index entry having its file and every removal succeeding.
  Then \<^verbatim>\<open>cleanupOversized\<close> evicts entries in ascending \<open>timestamp\<close> order, oldest first: the
  evicted entries are a non-empty prefix of the index sorted by \<open>timestamp\<close>, and the index
  keeps exactly the rest. It stops as soon as the remaining total is within the budget
  (before each eviction the remaining total still exceeds \<open>maxCacheSize\<close>). Afterwards
  \<open>totalSize\<close> is the sum over the kept entries and at most \<open>maxCacheSize\<close>, and no entry was
  evicted while an older one is kept: every evicted entry is at least as old as every kept
  one.
\<close>

theorem cleanupOversized_oldest_first:
  assumes wf: "distinct (map fst (cacheIndex st))"
    and fresh: "totalSize (cacheStats st)
                  = sum_list (map (\<lambda>e. size_m (snd e)) (cacheIndex st))"
    and blobs: "fst ` set (cacheIndex st) \<subseteq> dom (files st)"
    and over: "maxCacheSize (config st) < totalSize (cacheStats st)"
    and res: "cleanupOversized io_ok now st = ((cleanedCount, cleanedSize), st')"
  shows "0 < cleanedCount \<and> cleanedCount \<le> length (cacheIndex st)
    \<and> set (cacheIndex st')
        = set (drop cleanedCount (sort_key (\<lambda>e. timestamp (snd e)) (cacheIndex st)))
    \<and> set (cacheIndex st) - set (cacheIndex st')
        = set (take cleanedCount (sort_key (\<lambda>e. timestamp (snd e)) (cacheIndex st)))
    \<and> cleanedSize
        = sum_list (map (\<lambda>e. size_m (snd e))
            (take cleanedCount (sort_key (\<lambda>e. timestamp (snd e)) (cacheIndex st))))
    \<and> totalSize (cacheStats st') = sum_list (map (\<lambda>e. size_m (snd e)) (cacheIndex st'))
    \<and> totalSize (cacheStats st') \<le> maxCacheSize (config st')
    \<and> (\<forall>j<cleanedCount. maxCacheSize (config st)
          < sum_list (map (\<lambda>e. size_m (snd e))
              (drop j (sort_key (\<lambda>e. timestamp (snd e)) (cacheIndex st)))))
    \<and> (\<forall>e\<in>set (cacheIndex st) - set (cacheIndex st'). \<forall>r\<in>set (cacheIndex st').
          timestamp (snd e) \<le> timestamp (snd r))"
proof -
  let ?ts = "\<lambda>e::string \<times> cache_metadata. timestamp (snd e)"
  let ?xs = "sort_key ?ts (cacheIndex st)"
  let ?sizes = "\<lambda>ys::(string \<times> cache_metadata) list. sum_list (map (\<lambda>e. size_m (snd e)) ys)"
  have p2: "set (cacheIndex st) = set ?xs" by simp
  have p3: "distinct (map fst ?xs)" using wf by (simp add: distinct_map_sort_key)
  have p4: "fst ` set ?xs \<subseteq> dom (files st)" using blobs by simp
  have total: "?sizes ?xs = totalSize (cacheStats st)"
    by (simp add: fresh sum_list_sort_key)
  have p5: "int (totalSize (cacheStats st)) - int 0 = int (?sizes ?xs)"
    by (simp add: total)
  from oversized_loop_spec [OF wf p2 p3 p4 p5, of 0] obtain n st1 where
    n: "n \<le> length ?xs"
    and run: "oversized_loop io_ok ?xs (st, 0, 0) = (st1, n, ?sizes (take n ?xs))"
    and idx: "set (cacheIndex st1) = set (drop n ?xs)"
    and dist: "distinct (map fst (cacheIndex st1))"
    and same: "cacheStats st1 = cacheStats st" "config st1 = config st"
    and fits: "?sizes (drop n ?xs) \<le> maxCacheSize (config st)"
    and minimal: "\<forall>j<n. maxCacheSize (config st) < ?sizes (drop j ?xs)"
    by auto
  have pos: "0 < n"
  proof (rule ccontr)
    assume "\<not> 0 < n"
    with fits have "?sizes ?xs \<le> maxCacheSize (config st)" by simp
    with total over show False by simp
  qed
  have out: "cleanupOversized io_ok now st
               = ((n, ?sizes (take n ?xs)), saveCacheIndex io_ok now (updateCacheStats st1))"
    using over pos by (simp add: cleanupOversized_def Let_def run)
  from res [unfolded out]
  have cc: "cleanedCount = n" and cs: "cleanedSize = ?sizes (take n ?xs)"
    and st': "st' = saveCacheIndex io_ok now (updateCacheStats st1)" by auto
  have idx': "cacheIndex st' = cacheIndex st1"
    by (simp add: st' saveCacheIndex_simps updateCacheStats_simps)
  have cfg': "config st' = config st"
    by (simp add: st' saveCacheIndex_simps updateCacheStats_simps same)
  have tot': "totalSize (cacheStats st') = ?sizes (cacheIndex st1)"
    by (simp add: st' saveCacheIndex_simps updateCacheStats_simps)
  have dxs: "distinct ?xs" using p3 by (rule distinct_keys_distinct)
  have "?sizes (cacheIndex st1) = ?sizes (drop n ?xs)"
    by (rule sum_list_same_set [OF distinct_keys_distinct [OF dist] distinct_drop [OF dxs] idx])
  with fits tot' have le: "totalSize (cacheStats st') \<le> maxCacheSize (config st')"
    by (simp add: cfg')
  have gone: "set (cacheIndex st) - set (cacheIndex st1) = set (take n ?xs)"
    unfolding idx p2 by (rule take_drop_partition [OF dxs])
  have order: "\<forall>e\<in>set (take n ?xs). \<forall>r\<in>set (drop n ?xs). ?ts e \<le> ?ts r"
    using sorted_take_drop [of ?ts ?xs _ n] by simp
  show ?thesis
    unfolding cc cs idx' gone
    using pos n idx tot' le minimal order by simp
qed


lemma five_entries_sweep:
  "fst (cleanupOversized io_ok 10 five_entries) = (2, 60)"
  "cacheIndex (snd (cleanupOversized io_ok 10 five_entries))
     = [entry_at ''c'' 3 30, entry_at ''e'' 5 30, entry_at ''d'' 4 30]"
  by (simp_all add: cleanupOversized_def five_entries_def five_index_def entry_at_def sweep_entry_def
      io_ok_simps Let_def AList.delete_eq saveCacheIndex_simps updateCacheStats_simps)

theorem cleanupOversized_oldest_first_witness:
  "distinct (map fst (cacheIndex five_entries))
   \<and> totalSize (cacheStats five_entries)
       = sum_list (map (\<lambda>e. size_m (snd e)) (cacheIndex five_entries))
   \<and> fst ` set (cacheIndex five_entries) \<subseteq> dom (files five_entries)
   \<and> maxCacheSize (config five_entries) < totalSize (cacheStats five_entries)
   \<and> fst (cleanupOversized io_ok 10 five_entries) = (2, 60)
   \<and> totalSize (cacheStats (snd (cleanupOversized io_ok 10 five_entries)))
       \<le> maxCacheSize (config (snd (cleanupOversized io_ok 10 five_entries)))"
proof -
  have h1: "distinct (map fst (cacheIndex five_entries))"
    by (simp add: five_entries_def five_index_def entry_at_def)
  have h2: "totalSize (cacheStats five_entries)
              = sum_list (map (\<lambda>e. size_m (snd e)) (cacheIndex five_entries))"
    by (simp add: five_entries_def five_index_def entry_at_def)
  have h3: "fst ` set (cacheIndex five_entries) \<subseteq> dom (files five_entries)"
    by (simp add: five_entries_def five_index_def entry_at_def)
  have h4: "maxCacheSize (config five_entries) < totalSize (cacheStats five_entries)"
    by (simp add: five_entries_def)
  have h5: "cleanupOversized io_ok 10 five_entries
              = ((fst (fst (cleanupOversized io_ok 10 five_entries)),
                  snd (fst (cleanupOversized io_ok 10 five_entries))),
                 snd (cleanupOversized io_ok 10 five_entries))"
    by simp
  from cleanupOversized_oldest_first [OF h1 h2 h3 h4 h5]
  have "totalSize (cacheStats (snd (cleanupOversized io_ok 10 five_entries)))
          \<le> maxCacheSize (config (snd (cleanupOversized io_ok 10 five_entries)))"
    by blast
  with h1 h2 h3 h4 five_entries_sweep(1) show ?thesis by blast
qed

end
